theory Spec2Isabelle
  imports Main
begin

section \<open>Channels of \<^verbatim>\<open>struct{}\<close>\<close>

text \<open>
  The semaphore of \<^verbatim>\<open>semaphore.go\<close> is a buffered channel \<^verbatim>\<open>chan struct{}\<close>:
  \<^verbatim>\<open>Acquire\<close> sends on it, \<^verbatim>\<open>Release\<close> receives from it and \<^verbatim>\<open>Close\<close> closes it.
  The element type carries no data, so the buffer is its length. A channel operation is
  atomic (it runs under the channel's lock), so a concurrent execution is an interleaving
  of the operations below. A goroutine that cannot proceed is parked in one of the two
  wait queues of the channel; the operation that lets it proceed takes it out of the queue
  and reports how its pending operation ends.
\<close>

type_synonym gid = nat

text \<open>How a channel operation or a method call ends for the goroutine that runs it.\<close>

datatype 'a go = Normal 'a | Panic | Park

text \<open>
  The fields are those of the Go runtime's channel header: the capacity given to
  \<^verbatim>\<open>make\<close>, the number of buffered elements, the closed flag, and the goroutines parked
  in a receive and in a send.
\<close>

record chan =
  dataqsiz :: nat
  qcount :: nat
  closed :: bool
  recvq :: "gid list"
  sendq :: "gid list"

text \<open>How the pending operation of a parked goroutine ends when another operation wakes it.\<close>

datatype wake =
    Received gid bool
  | Sent gid
  | SendPanics gid

definition make_chan :: "nat \<Rightarrow> chan" where
  "make_chan n = \<lparr>dataqsiz = n, qcount = 0, closed = False, recvq = [], sendq = []\<rparr>"

text \<open>
  \<^verbatim>\<open>ch <- struct{}{}\<close>: panics on a closed channel; hands the value to the first parked
  receiver if there is one; else puts it in the buffer if there is room; else parks. A
  parked send ends when a receiver takes its value, or panics when the channel is closed.
\<close>

definition chansend :: "gid \<Rightarrow> chan \<Rightarrow> unit go \<times> wake list \<times> chan" where
  "chansend g ch =
     (if closed ch then (Panic, [], ch)
      else (case recvq ch of
              r # rs \<Rightarrow> (Normal (), [Received r True], ch\<lparr>recvq := rs\<rparr>)
            | [] \<Rightarrow>
                if qcount ch < dataqsiz ch
                then (Normal (), [], ch\<lparr>qcount := qcount ch + 1\<rparr>)
                else (Park, [], ch\<lparr>sendq := sendq ch @ [g]\<rparr>)))"

text \<open>
  \<^verbatim>\<open>_, ok := <-ch\<close>: on a closed channel with an empty buffer it returns at once with
  \<^verbatim>\<open>ok = false\<close>; on an open channel with a parked sender it takes the oldest element and
  the sender's value takes the freed place (the buffer stays as full as it was); else it
  takes a buffered element if there is one; else parks. The result is the \<^verbatim>\<open>ok\<close> flag.
\<close>

definition chanrecv :: "gid \<Rightarrow> chan \<Rightarrow> bool go \<times> wake list \<times> chan" where
  "chanrecv g ch =
     (if closed ch \<and> qcount ch = 0 then (Normal False, [], ch)
      else (case (if closed ch then [] else sendq ch) of
              s # ss \<Rightarrow> (Normal True, [Sent s], ch\<lparr>sendq := ss\<rparr>)
            | [] \<Rightarrow>
                if 0 < qcount ch
                then (Normal True, [], ch\<lparr>qcount := qcount ch - 1\<rparr>)
                else (Park, [], ch\<lparr>recvq := recvq ch @ [g]\<rparr>)))"

text \<open>
  \<^verbatim>\<open>close(ch)\<close>: panics on a closed channel; else sets the flag and wakes every parked
  goroutine: a receiver gets \<^verbatim>\<open>ok = false\<close>, a sender panics. The buffer is kept.
\<close>

definition closechan :: "chan \<Rightarrow> unit go \<times> wake list \<times> chan" where
  "closechan ch =
     (if closed ch then (Panic, [], ch)
      else (Normal (),
            map (\<lambda>r. Received r False) (recvq ch) @ map SendPanics (sendq ch),
            ch\<lparr>closed := True, recvq := [], sendq := []\<rparr>))"

section \<open>The semaphore\<close>

datatype error = ErrUnusable | ErrAlreadyClosed | ErrSize

record semaphore =
  c :: chan

text \<open>
  \<^verbatim>\<open>New\<close>: the error for a size below 1 is an unnamed \<^verbatim>\<open>errors.New\<close> value, here
  \<open>ErrSize\<close>. The size is only compared, never computed with, so Go's \<^verbatim>\<open>int\<close> is
  \<open>int\<close> here.
\<close>

definition New :: "int \<Rightarrow> error + semaphore" where
  "New sz = (if sz < 1 then Inl ErrSize else Inr \<lparr>c = make_chan (nat sz)\<rparr>)"

text \<open>
  The three methods are one channel operation each. What follows the operation is the
  method's own code: the deferred \<^verbatim>\<open>recover\<close> of \<^verbatim>\<open>Acquire\<close> and of \<^verbatim>\<open>Close\<close> turns a
  panic into the returned error, \<^verbatim>\<open>Release\<close> tests the \<^verbatim>\<open>ok\<close> flag and recovers
  nothing. A method's result is the returned \<^verbatim>\<open>error\<close>, \<open>None\<close> for \<^verbatim>\<open>nil\<close>.
\<close>

fun Acquire_return :: "unit go \<Rightarrow> error option go" where
  "Acquire_return (Normal u) = Normal None"
| "Acquire_return Panic = Normal (Some ErrUnusable)"
| "Acquire_return Park = Park"

fun Release_return :: "bool go \<Rightarrow> error option go" where
  "Release_return (Normal ok) = (if \<not> ok then Normal (Some ErrUnusable) else Normal None)"
| "Release_return Panic = Panic"
| "Release_return Park = Park"

fun Close_return :: "unit go \<Rightarrow> error option go" where
  "Close_return (Normal u) = Normal None"
| "Close_return Panic = Normal (Some ErrAlreadyClosed)"
| "Close_return Park = Park"

definition Acquire :: "gid \<Rightarrow> semaphore \<Rightarrow> error option go \<times> wake list \<times> semaphore" where
  "Acquire g s =
     (case chansend g (c s) of (r, ws, ch) \<Rightarrow> (Acquire_return r, ws, s\<lparr>c := ch\<rparr>))"

definition Release :: "gid \<Rightarrow> semaphore \<Rightarrow> error option go \<times> wake list \<times> semaphore" where
  "Release g s =
     (case chanrecv g (c s) of (r, ws, ch) \<Rightarrow> (Release_return r, ws, s\<lparr>c := ch\<rparr>))"

definition Close :: "gid \<Rightarrow> semaphore \<Rightarrow> error option go \<times> wake list \<times> semaphore" where
  "Close g s =
     (case closechan (c s) of (r, ws, ch) \<Rightarrow> (Close_return r, ws, s\<lparr>c := ch\<rparr>))"

section \<open>Goroutines calling the methods\<close>

datatype call = AcquireCall | ReleaseCall | CloseCall

fun invoke :: "call \<Rightarrow> gid \<Rightarrow> semaphore \<Rightarrow> error option go \<times> wake list \<times> semaphore" where
  "invoke AcquireCall g s = Acquire g s"
| "invoke ReleaseCall g s = Release g s"
| "invoke CloseCall g s = Close g s"

text \<open>
  Only \<^verbatim>\<open>Acquire\<close> sends and only \<^verbatim>\<open>Release\<close> receives, so a goroutine woken in a send
  is inside \<^verbatim>\<open>Acquire\<close> and one woken in a receive is inside \<^verbatim>\<open>Release\<close>; its call
  returns what the rest of the method makes of the way the channel operation ended.
\<close>

fun resume :: "wake \<Rightarrow> gid \<times> call \<times> error option go" where
  "resume (Received g ok) = (g, ReleaseCall, Release_return (Normal ok))"
| "resume (Sent g) = (g, AcquireCall, Acquire_return (Normal ()))"
| "resume (SendPanics g) = (g, AcquireCall, Acquire_return Panic)"

text \<open>
  The semaphore together with the calls that have ended so far, oldest first: who called
  what, and how the call ended.
\<close>

record world =
  sem :: semaphore
  returned :: "(gid \<times> call \<times> error option go) list"

definition start :: "semaphore \<Rightarrow> world" where
  "start s = \<lparr>sem = s, returned = []\<rparr>"

definition parked :: "semaphore \<Rightarrow> gid set" where
  "parked s = set (sendq (c s)) \<union> set (recvq (c s))"

fun ended :: "gid \<Rightarrow> call \<Rightarrow> error option go \<Rightarrow> (gid \<times> call \<times> error option go) list" where
  "ended g k Park = []"
| "ended g k r = [(g, k, r)]"

text \<open>
  One goroutine calls one method. A parked goroutine is inside a call and cannot start
  another: such a schedule does not exist (\<open>None\<close>).
\<close>

definition step :: "world \<Rightarrow> gid \<times> call \<Rightarrow> world option" where
  "step w ev =
     (case ev of (g, k) \<Rightarrow>
        if g \<in> parked (sem w) then None
        else (case invoke k g (sem w) of (r, ws, s) \<Rightarrow>
                Some \<lparr>sem = s, returned = returned w @ ended g k r @ map resume ws\<rparr>))"

fun run :: "world \<Rightarrow> (gid \<times> call) list \<Rightarrow> world option" where
  "run w [] = Some w"
| "run w (ev # evs) = (case step w ev of None \<Rightarrow> None | Some w' \<Rightarrow> run w' evs)"

text \<open>The calls of one kind that returned \<^verbatim>\<open>nil\<close>, and the permits held.\<close>

definition successes :: "call \<Rightarrow> (gid \<times> call \<times> error option go) list \<Rightarrow> nat" where
  "successes k l = length (filter (\<lambda>e. fst (snd e) = k \<and> snd (snd e) = Normal None) l)"

definition outstanding :: "world \<Rightarrow> int" where
  "outstanding w =
     int (successes AcquireCall (returned w)) - int (successes ReleaseCall (returned w))"

text \<open>
  What every channel made by \<^verbatim>\<open>make\<close> satisfies: the buffer is within its capacity, a
  receiver is parked only at an empty buffer with no sender parked, a sender is parked only
  at a full buffer, and nobody is parked on a closed channel.
\<close>

definition chan_inv :: "chan \<Rightarrow> bool" where
  "chan_inv ch =
     (qcount ch \<le> dataqsiz ch
      \<and> (recvq ch \<noteq> [] \<longrightarrow> qcount ch = 0 \<and> sendq ch = [])
      \<and> (sendq ch \<noteq> [] \<longrightarrow> qcount ch = dataqsiz ch)
      \<and> (closed ch \<longrightarrow> recvq ch = [] \<and> sendq ch = []))"

text \<open>
  The invariant of an execution: the channel is well formed, and the permits held are the
  elements in the buffer.
\<close>

definition world_inv :: "world \<Rightarrow> bool" where
  "world_inv w = (chan_inv (c (sem w)) \<and> outstanding w = int (qcount (c (sem w))))"

section \<open>The invariant\<close>

lemma successes_append: "successes k (xs @ ys) = successes k xs + successes k ys"
  by (simp add: successes_def)

lemma successes_Nil: "successes k [] = 0"
  by (simp add: successes_def)

lemma successes_Cons:
  "successes k (e # l)
   = (if fst (snd e) = k \<and> snd (snd e) = Normal None then 1 else 0) + successes k l"
  by (simp add: successes_def)

text \<open>
  A call that returns \<^verbatim>\<open>nil\<close> moves the buffer by one, and a hand-over between a sender
  and a receiver counts once on each side.
\<close>

lemma Acquire_counts:
  assumes "chan_inv (c s)" "Acquire g s = (r, ws, s')"
  shows "int (successes AcquireCall (ended g AcquireCall r @ map resume ws))
         - int (successes ReleaseCall (ended g AcquireCall r @ map resume ws))
         = int (qcount (c s')) - int (qcount (c s))"
  using assms
  by (auto simp: Acquire_def chansend_def chan_inv_def successes_def split: if_splits list.splits)

lemma Release_counts:
  assumes "chan_inv (c s)" "Release g s = (r, ws, s')"
  shows "int (successes AcquireCall (ended g ReleaseCall r @ map resume ws))
         - int (successes ReleaseCall (ended g ReleaseCall r @ map resume ws))
         = int (qcount (c s')) - int (qcount (c s))"
  using assms
  by (auto simp: Release_def chanrecv_def chan_inv_def successes_def split: if_splits list.splits)

lemma Close_counts:
  assumes "Close g s = (r, ws, s')"
  shows "successes AcquireCall (ended g CloseCall r @ map resume ws) = 0
         \<and> successes ReleaseCall (ended g CloseCall r @ map resume ws) = 0
         \<and> qcount (c s') = qcount (c s)"
  using assms
  by (auto simp: Close_def closechan_def successes_def split: if_splits list.splits)

lemma invoke_counts:
  assumes "chan_inv (c s)" "invoke k g s = (r, ws, s')"
  shows "int (successes AcquireCall (ended g k r @ map resume ws))
         - int (successes ReleaseCall (ended g k r @ map resume ws))
         = int (qcount (c s')) - int (qcount (c s))"
proof (cases k)
  case AcquireCall
  with assms show ?thesis using Acquire_counts by simp
next
  case ReleaseCall
  with assms show ?thesis using Release_counts by simp
next
  case CloseCall
  with assms show ?thesis using Close_counts [of g s r ws s'] by simp
qed

lemma invoke_inv:
  assumes "chan_inv (c s)" "invoke k g s = (r, ws, s')"
  shows "chan_inv (c s') \<and> dataqsiz (c s') = dataqsiz (c s)"
  using assms
  by (cases k)
     (auto simp: Acquire_def Release_def Close_def chansend_def chanrecv_def closechan_def
         chan_inv_def split: if_splits list.splits)

lemma step_inv:
  assumes "world_inv w" "step w ev = Some w'"
  shows "world_inv w' \<and> dataqsiz (c (sem w')) = dataqsiz (c (sem w))"
proof -
  obtain g k where ev: "ev = (g, k)" by (cases ev)
  obtain r ws s where inv: "invoke k g (sem w) = (r, ws, s)" by (cases "invoke k g (sem w)")
  from assms(2) ev inv
  have w': "w' = \<lparr>sem = s, returned = returned w @ ended g k r @ map resume ws\<rparr>"
    by (auto simp: step_def split: if_splits)
  from assms(1) have ci: "chan_inv (c (sem w))"
    and out: "outstanding w = int (qcount (c (sem w)))"
    by (simp_all add: world_inv_def)
  from invoke_inv [OF ci inv] have a: "chan_inv (c s)" "dataqsiz (c s) = dataqsiz (c (sem w))"
    by simp_all
  from invoke_counts [OF ci inv] out have "outstanding w' = int (qcount (c s))"
    by (simp add: w' outstanding_def successes_append)
  with a show ?thesis by (simp add: w' world_inv_def)
qed

lemma run_inv:
  "world_inv w \<Longrightarrow> run w evs = Some w' \<Longrightarrow>
     world_inv w' \<and> dataqsiz (c (sem w')) = dataqsiz (c (sem w))"
proof (induction evs arbitrary: w)
  case Nil
  then show ?case by simp
next
  case (Cons ev evs)
  then obtain w1 where s: "step w ev = Some w1" and r: "run w1 evs = Some w'"
    by (auto split: option.splits)
  from step_inv [OF Cons.prems(1) s] Cons.IH [OF _ r] show ?case by simp
qed

lemma New_inv: "New sz = Inr s \<Longrightarrow> world_inv (start s) \<and> dataqsiz (c s) = nat sz \<and> 1 \<le> sz"
  by (auto simp: New_def world_inv_def start_def outstanding_def successes_def chan_inv_def
      make_chan_def split: if_splits)

section \<open>Close while Acquire is blocked\<close>

text \<open>
  C1. A goroutine \<open>g\<close> is blocked in \<^verbatim>\<open>Acquire\<close> on an open semaphore (it is parked in
  the send queue) and another goroutine calls \<^verbatim>\<open>Close\<close>. The call of \<open>g\<close> ends in that
  very step and returns \<^verbatim>\<open>ErrUnusable\<close>: it is among the calls that the step adds to
  those that returned, \<open>g\<close> is parked no more, and the buffer holds as many permits as
  before, so none was granted to \<open>g\<close>.
\<close>

theorem Close_wakes_blocked_Acquire:
  assumes "g \<in> set (sendq (c (sem w)))" "\<not> closed (c (sem w))" "h \<notin> parked (sem w)"
  shows "\<exists>w'. step w (h, CloseCall) = Some w'
           \<and> (g, AcquireCall, Normal (Some ErrUnusable))
               \<in> set (drop (length (returned w)) (returned w'))
           \<and> take (length (returned w)) (returned w') = returned w
           \<and> g \<notin> parked (sem w')
           \<and> closed (c (sem w'))
           \<and> qcount (c (sem w')) = qcount (c (sem w))"
  using assms
  by (auto simp: step_def Close_def closechan_def parked_def image_iff
      intro!: bexI [of _ "SendPanics g"])

text \<open>
  The scenario of the specification: capacity 1, goroutine 0 acquires, goroutine 1 blocks
  in \<^verbatim>\<open>Acquire\<close>, goroutine 2 closes.
\<close>

theorem Close_wakes_blocked_Acquire_witness:
  "let w = the (run (start \<lparr>c = make_chan 1\<rparr>) [(0, AcquireCall), (1, AcquireCall)]) in
     1 \<in> set (sendq (c (sem w))) \<and> \<not> closed (c (sem w)) \<and> 2 \<notin> parked (sem w)
     \<and> (\<exists>w'. step w (2, CloseCall) = Some w'
           \<and> (1, AcquireCall, Normal (Some ErrUnusable))
               \<in> set (drop (length (returned w)) (returned w'))
           \<and> take (length (returned w)) (returned w') = returned w
           \<and> 1 \<notin> parked (sem w')
           \<and> closed (c (sem w'))
           \<and> qcount (c (sem w')) = qcount (c (sem w)))"
  using Close_wakes_blocked_Acquire
    [of 1 "the (run (start \<lparr>c = make_chan 1\<rparr>) [(0, AcquireCall), (1, AcquireCall)])" 2]
  by (simp add: start_def make_chan_def step_def Acquire_def chansend_def parked_def Let_def)

section \<open>Acquire on a closed semaphore\<close>

text \<open>
  C2. On a closed semaphore \<^verbatim>\<open>Acquire\<close> returns \<^verbatim>\<open>ErrUnusable\<close> at once: it does not
  park, wakes nobody and leaves the semaphore as it was.
\<close>

theorem Acquire_closed:
  "closed (c s) \<Longrightarrow> Acquire g s = (Normal (Some ErrUnusable), [], s)"
  by (simp add: Acquire_def chansend_def)

theorem Acquire_closed_witness:
  "closed (c \<lparr>c = (make_chan 1)\<lparr>closed := True\<rparr>\<rparr>)
   \<and> Acquire 0 \<lparr>c = (make_chan 1)\<lparr>closed := True\<rparr>\<rparr>
       = (Normal (Some ErrUnusable), [], \<lparr>c = (make_chan 1)\<lparr>closed := True\<rparr>\<rparr>)"
  using Acquire_closed [of "\<lparr>c = (make_chan 1)\<lparr>closed := True\<rparr>\<rparr>" 0]
  by simp

section \<open>Release after Close\<close>

text \<open>
  C3. In an execution that starts at a semaphore made by \<^verbatim>\<open>New\<close>, once the semaphore is
  closed and a permit is still held (more calls of \<^verbatim>\<open>Acquire\<close> than of \<^verbatim>\<open>Release\<close>
  have returned \<^verbatim>\<open>nil\<close>), any goroutine can call \<^verbatim>\<open>Release\<close>: the call returns \<^verbatim>\<open>nil\<close>
  at once and one permit fewer is held.
\<close>

theorem Release_after_Close:
  assumes "New sz = Inr s" "run (start s) evs = Some w"
    and "closed (c (sem w))" "0 < outstanding w"
  shows "g \<notin> parked (sem w)
         \<and> (\<exists>w'. step w (g, ReleaseCall) = Some w'
               \<and> returned w' = returned w @ [(g, ReleaseCall, Normal None)]
               \<and> outstanding w' = outstanding w - 1)"
proof -
  from New_inv [OF assms(1)] have "world_inv (start s)" by simp
  from run_inv [OF this assms(2)] have wi: "world_inv w" by simp
  with assms(3,4) have q: "0 < qcount (c (sem w))"
    and e: "recvq (c (sem w)) = []" "sendq (c (sem w)) = []"
    by (auto simp: world_inv_def chan_inv_def)
  from e have np: "g \<notin> parked (sem w)" by (simp add: parked_def)
  from assms(3) q np have "step w (g, ReleaseCall)
      = Some \<lparr>sem = (sem w)\<lparr>c := (c (sem w))\<lparr>qcount := qcount (c (sem w)) - 1\<rparr>\<rparr>,
              returned = returned w @ [(g, ReleaseCall, Normal None)]\<rparr>"
    by (simp add: step_def Release_def chanrecv_def)
  with np show ?thesis
    by (simp add: outstanding_def successes_append successes_Cons successes_Nil)
qed

text \<open>The scenario of the specification: capacity 1, an acquire, a close, then the release.\<close>

theorem Release_after_Close_witness:
  "let s = \<lparr>c = make_chan 1\<rparr>; evs = [(0, AcquireCall), (1, CloseCall)];
       w = the (run (start s) evs) in
     New 1 = Inr s \<and> run (start s) evs = Some w \<and> closed (c (sem w)) \<and> 0 < outstanding w
     \<and> 0 \<notin> parked (sem w)
     \<and> (\<exists>w'. step w (0, ReleaseCall) = Some w'
           \<and> returned w' = returned w @ [(0, ReleaseCall, Normal None)]
           \<and> outstanding w' = outstanding w - 1)"
  using Release_after_Close [of 1 "\<lparr>c = make_chan 1\<rparr>" "[(0, AcquireCall), (1, CloseCall)]"
      "the (run (start \<lparr>c = make_chan 1\<rparr>) [(0, AcquireCall), (1, CloseCall)])" 0]
  by (simp add: New_def start_def make_chan_def step_def Acquire_def Close_def chansend_def
      closechan_def parked_def outstanding_def successes_def Let_def)

section \<open>The permits held stay within the capacity\<close>

text \<open>
  C4. For a semaphore made by \<^verbatim>\<open>New\<close> with size \<open>sz\<close> and every schedule of calls of
  \<^verbatim>\<open>Acquire\<close>, \<^verbatim>\<open>Release\<close> and \<^verbatim>\<open>Close\<close>, the number of permits held (the calls of
  \<^verbatim>\<open>Acquire\<close> that returned \<^verbatim>\<open>nil\<close> minus the calls of \<^verbatim>\<open>Release\<close> that did) is
  between 0 and \<open>sz\<close> in the state reached, open or closed; it is the number of elements
  in the buffer, whose capacity stays \<open>sz\<close>.
\<close>

theorem held_permits_bounded:
  assumes "New sz = Inr s" "run (start s) evs = Some w"
  shows "0 \<le> outstanding w \<and> outstanding w \<le> sz
         \<and> outstanding w = int (qcount (c (sem w)))
         \<and> dataqsiz (c (sem w)) = nat sz"
proof -
  from New_inv [OF assms(1)] have i: "world_inv (start s)"
    and d: "dataqsiz (c s) = nat sz" and p: "1 \<le> sz"
    by simp_all
  from run_inv [OF i assms(2)] d have "world_inv w" "dataqsiz (c (sem w)) = nat sz"
    by (simp_all add: start_def)
  with p show ?thesis by (auto simp: world_inv_def chan_inv_def)
qed

theorem held_permits_bounded_witness:
  "let s = \<lparr>c = make_chan 2\<rparr>;
       evs = [(0, AcquireCall), (1, AcquireCall), (2, AcquireCall), (0, ReleaseCall)];
       w = the (run (start s) evs) in
     New 2 = Inr s \<and> run (start s) evs = Some w
     \<and> 0 \<le> outstanding w \<and> outstanding w \<le> 2
     \<and> outstanding w = int (qcount (c (sem w)))
     \<and> dataqsiz (c (sem w)) = nat 2"
  using held_permits_bounded [of 2 "\<lparr>c = make_chan 2\<rparr>"
      "[(0, AcquireCall), (1, AcquireCall), (2, AcquireCall), (0, ReleaseCall)]"
      "the (run (start \<lparr>c = make_chan 2\<rparr>)
         [(0, AcquireCall), (1, AcquireCall), (2, AcquireCall), (0, ReleaseCall)])"]
  by (simp add: New_def start_def make_chan_def step_def Acquire_def Release_def chansend_def
      chanrecv_def parked_def Let_def)

section \<open>Release on an open semaphore with no permit held\<close>

text \<open>
  C5. \<^verbatim>\<open>Release\<close> is a plain receive, so on an open semaphore whose buffer is empty it
  parks the caller. On the semaphore that \<^verbatim>\<open>New(1)\<close> returns, a first call of
  \<^verbatim>\<open>Release\<close> by goroutine 0 does not return: goroutine 0 is parked and no call has
  ended.
\<close>

theorem Release_parks_on_fresh_semaphore:
  "New 1 = Inr \<lparr>c = make_chan 1\<rparr>
   \<and> fst (Release 0 \<lparr>c = make_chan 1\<rparr>) = Park
   \<and> parked (snd (snd (Release 0 \<lparr>c = make_chan 1\<rparr>))) = {0}
   \<and> map_option returned (run (start \<lparr>c = make_chan 1\<rparr>) [(0, ReleaseCall)]) = Some []"
  by (simp add: New_def Release_def chanrecv_def make_chan_def parked_def start_def step_def)

text \<open>\<^verbatim>\<open>Close\<close>, and \<^verbatim>\<open>Release\<close> on a closed semaphore, never park.\<close>

lemma Close_never_parks: "fst (Close g s) \<noteq> Park"
  by (simp add: Close_def closechan_def)

lemma Release_closed_never_parks: "closed (c s) \<Longrightarrow> fst (Release g s) \<noteq> Park"
  by (simp add: Release_def chanrecv_def)

section \<open>When Release returns an error\<close>

text \<open>
  C6, amended. The code never discards the pool: \<^verbatim>\<open>Close\<close> only sets the closed flag and
  keeps the channel, its capacity and its buffer. What \<^verbatim>\<open>Release\<close> tests is the \<^verbatim>\<open>ok\<close>
  flag of the receive. In an execution that starts at a semaphore made by \<^verbatim>\<open>New\<close>,
  whenever a step ends a call of \<^verbatim>\<open>Release\<close> with \<^verbatim>\<open>ErrUnusable\<close> (the call made in
  that step, or a call that was blocked and is woken by it), the semaphore is then closed
  and no permit is left in it: the buffer is empty and no permit is held. On a closed
  semaphore whose buffer still holds a permit, \<^verbatim>\<open>Release\<close> returns \<^verbatim>\<open>nil\<close>.
\<close>

theorem Release_Unusable_only_when_drained:
  assumes "New sz = Inr s" "run (start s) evs = Some w" "step w ev = Some w'"
  shows "(\<forall>e \<in> set (drop (length (returned w)) (returned w')).
            fst (snd e) = ReleaseCall \<and> snd (snd e) = Normal (Some ErrUnusable)
            \<longrightarrow> closed (c (sem w')) \<and> qcount (c (sem w')) = 0 \<and> outstanding w' = 0)
         \<and> (closed (c (sem w)) \<and> 0 < qcount (c (sem w))
            \<longrightarrow> (\<forall>g. fst (Release g (sem w)) = Normal None))"
proof -
  from New_inv [OF assms(1)] have "world_inv (start s)" by simp
  from run_inv [OF this assms(2)] have wi: "world_inv w" by simp
  from step_inv [OF wi assms(3)] have wi': "world_inv w'" by simp
  obtain g k where ev: "ev = (g, k)" by (cases ev)
  from wi have ci: "chan_inv (c (sem w))" by (simp add: world_inv_def)
  have "closed (c (sem w')) \<and> qcount (c (sem w')) = 0"
    if "e \<in> set (drop (length (returned w)) (returned w'))"
      "fst (snd e) = ReleaseCall" "snd (snd e) = Normal (Some ErrUnusable)" for e
    using that assms(3) ci unfolding ev
    by (cases k)
       (auto simp: step_def Acquire_def Release_def Close_def chansend_def chanrecv_def
          closechan_def chan_inv_def split: if_splits list.splits)
  moreover from wi' have "outstanding w' = int (qcount (c (sem w')))"
    by (simp add: world_inv_def)
  moreover have "closed (c (sem w)) \<and> 0 < qcount (c (sem w))
      \<longrightarrow> (\<forall>g. fst (Release g (sem w)) = Normal None)"
    by (simp add: Release_def chanrecv_def)
  ultimately show ?thesis by simp
qed

text \<open>A release blocked on a fresh semaphore of capacity 1 is woken by a close.\<close>

theorem Release_Unusable_only_when_drained_witness:
  "let s = \<lparr>c = make_chan 1\<rparr>; evs = [(0, ReleaseCall)]; w = the (run (start s) evs);
       w' = the (step w (1, CloseCall)) in
     New 1 = Inr s \<and> run (start s) evs = Some w \<and> step w (1, CloseCall) = Some w'
     \<and> (0, ReleaseCall, Normal (Some ErrUnusable))
         \<in> set (drop (length (returned w)) (returned w'))
     \<and> closed (c (sem w')) \<and> qcount (c (sem w')) = 0 \<and> outstanding w' = 0"
  using Release_Unusable_only_when_drained [of 1 "\<lparr>c = make_chan 1\<rparr>" "[(0, ReleaseCall)]"
      "the (run (start \<lparr>c = make_chan 1\<rparr>) [(0, ReleaseCall)])" "(1, CloseCall)"
      "the (step (the (run (start \<lparr>c = make_chan 1\<rparr>) [(0, ReleaseCall)])) (1, CloseCall))"]
  by (simp add: New_def start_def make_chan_def step_def Release_def Close_def chanrecv_def
      closechan_def parked_def outstanding_def successes_def Let_def)

text \<open>
  C6 as stated, that being closed alone never makes \<^verbatim>\<open>Release\<close> return
  \<^verbatim>\<open>ErrUnusable\<close>, fails on \<^verbatim>\<open>New(1)\<close>, \<^verbatim>\<open>Close()\<close>, \<^verbatim>\<open>Release()\<close>: the only thing
  done to the semaphore is the close, which returns \<^verbatim>\<open>nil\<close>; the channel is the one
  \<^verbatim>\<open>New\<close> made, with its capacity of 1, but for the closed flag; and \<^verbatim>\<open>Release\<close>
  returns \<^verbatim>\<open>ErrUnusable\<close>. The doc comment of \<^verbatim>\<open>Release\<close> describes this very sequence.
\<close>

theorem Release_Unusable_when_only_closed:
  "New 1 = Inr \<lparr>c = make_chan 1\<rparr>
   \<and> run (start \<lparr>c = make_chan 1\<rparr>) [(0, CloseCall), (1, ReleaseCall)]
       = Some \<lparr>sem = \<lparr>c = (make_chan 1)\<lparr>closed := True\<rparr>\<rparr>,
               returned = [(0, CloseCall, Normal None),
                           (1, ReleaseCall, Normal (Some ErrUnusable))]\<rparr>
   \<and> dataqsiz (c \<lparr>c = (make_chan 1)\<lparr>closed := True\<rparr>\<rparr>) = 1
   \<and> qcount (c \<lparr>c = (make_chan 1)\<lparr>closed := True\<rparr>\<rparr>) = qcount (c \<lparr>c = make_chan 1\<rparr>)"
  by (simp add: New_def start_def make_chan_def step_def Close_def Release_def closechan_def
      chanrecv_def parked_def)

section \<open>Closing twice\<close>

text \<open>
  C7. On a semaphore just made by \<^verbatim>\<open>New\<close>, which is open, the first \<^verbatim>\<open>Close\<close> returns
  \<^verbatim>\<open>nil\<close> and the semaphore is closed; a second \<^verbatim>\<open>Close\<close> returns
  \<^verbatim>\<open>ErrAlreadyClosed\<close> and leaves that closed semaphore as it is.
\<close>

theorem Close_twice:
  assumes "New sz = Inr s"
  shows "\<not> closed (c s)
         \<and> (\<exists>s1. Close g s = (Normal None, [], s1) \<and> closed (c s1)
               \<and> Close h s1 = (Normal (Some ErrAlreadyClosed), [], s1))"
  using assms
  by (auto simp: New_def Close_def closechan_def make_chan_def split: if_splits)

theorem Close_twice_witness:
  "New 1 = Inr \<lparr>c = make_chan 1\<rparr>
   \<and> \<not> closed (c \<lparr>c = make_chan 1\<rparr>)
   \<and> (\<exists>s1. Close 0 \<lparr>c = make_chan 1\<rparr> = (Normal None, [], s1) \<and> closed (c s1)
         \<and> Close 0 s1 = (Normal (Some ErrAlreadyClosed), [], s1))"
  using Close_twice [of 1 "\<lparr>c = make_chan 1\<rparr>" 0 0]
  by (simp add: New_def)

section \<open>Construction and the first calls of Acquire\<close>

lemma step_Acquire_room:
  assumes "\<not> closed (c (sem w))" "recvq (c (sem w)) = []" "sendq (c (sem w)) = []"
    "qcount (c (sem w)) < dataqsiz (c (sem w))"
  shows "step w (g, AcquireCall)
         = Some \<lparr>sem = (sem w)\<lparr>c := (c (sem w))\<lparr>qcount := qcount (c (sem w)) + 1\<rparr>\<rparr>,
                 returned = returned w @ [(g, AcquireCall, Normal None)]\<rparr>"
  using assms by (simp add: step_def Acquire_def chansend_def parked_def)

text \<open>While there is room, every \<^verbatim>\<open>Acquire\<close> of a sequence returns \<^verbatim>\<open>nil\<close> at once.\<close>

lemma run_Acquires:
  assumes "\<not> closed (c (sem w))" "recvq (c (sem w)) = []" "sendq (c (sem w)) = []"
    "qcount (c (sem w)) + length gs \<le> dataqsiz (c (sem w))"
  shows "\<exists>w'. run w (map (\<lambda>g. (g, AcquireCall)) gs) = Some w'
           \<and> returned w' = returned w @ map (\<lambda>g. (g, AcquireCall, Normal None)) gs
           \<and> \<not> closed (c (sem w')) \<and> recvq (c (sem w')) = [] \<and> sendq (c (sem w')) = []
           \<and> qcount (c (sem w')) = qcount (c (sem w)) + length gs
           \<and> dataqsiz (c (sem w')) = dataqsiz (c (sem w))"
  using assms
proof (induction gs arbitrary: w)
  case Nil
  then show ?case by simp
next
  case (Cons g gs)
  let ?w1 = "\<lparr>sem = (sem w)\<lparr>c := (c (sem w))\<lparr>qcount := qcount (c (sem w)) + 1\<rparr>\<rparr>,
               returned = returned w @ [(g, AcquireCall, Normal None)]\<rparr>"
  from Cons.prems have s: "step w (g, AcquireCall) = Some ?w1"
    by (intro step_Acquire_room) simp_all
  from Cons.prems have "\<exists>w'. run ?w1 (map (\<lambda>g. (g, AcquireCall)) gs) = Some w'
           \<and> returned w' = returned ?w1 @ map (\<lambda>g. (g, AcquireCall, Normal None)) gs
           \<and> \<not> closed (c (sem w')) \<and> recvq (c (sem w')) = [] \<and> sendq (c (sem w')) = []
           \<and> qcount (c (sem w')) = qcount (c (sem ?w1)) + length gs
           \<and> dataqsiz (c (sem w')) = dataqsiz (c (sem ?w1))"
    by (intro Cons.IH) simp_all
  with s show ?case by auto
qed

text \<open>At a full buffer with no receiver parked, every \<^verbatim>\<open>Acquire\<close> parks behind the others.\<close>

lemma step_Acquire_full:
  assumes "\<not> closed (c (sem w))" "recvq (c (sem w)) = []"
    "qcount (c (sem w)) = dataqsiz (c (sem w))" "step w (h, AcquireCall) = Some w'"
  shows "returned w' = returned w \<and> \<not> closed (c (sem w')) \<and> recvq (c (sem w')) = []
         \<and> qcount (c (sem w')) = dataqsiz (c (sem w'))
         \<and> sendq (c (sem w')) = sendq (c (sem w)) @ [h]"
  using assms by (auto simp: step_def Acquire_def chansend_def split: if_splits)

lemma run_Acquires_full:
  assumes "\<not> closed (c (sem w))" "recvq (c (sem w)) = []"
    "qcount (c (sem w)) = dataqsiz (c (sem w))"
    "run w (map (\<lambda>h. (h, AcquireCall)) hs) = Some w'"
  shows "returned w' = returned w \<and> sendq (c (sem w')) = sendq (c (sem w)) @ hs"
  using assms
proof (induction hs arbitrary: w)
  case Nil
  then show ?case by simp
next
  case (Cons h hs)
  from Cons.prems(4) obtain w1 where s: "step w (h, AcquireCall) = Some w1"
    and r: "run w1 (map (\<lambda>h. (h, AcquireCall)) hs) = Some w'"
    by (auto split: option.splits)
  from step_Acquire_full [OF Cons.prems(1-3) s]
  have a: "returned w1 = returned w" "\<not> closed (c (sem w1))" "recvq (c (sem w1)) = []"
    "qcount (c (sem w1)) = dataqsiz (c (sem w1))" "sendq (c (sem w1)) = sendq (c (sem w)) @ [h]"
    by simp_all
  from Cons.IH [OF a(2-4) r] a(1,5) show ?case by simp
qed

text \<open>
  C8. \<^verbatim>\<open>New\<close> returns its error, and no semaphore, exactly for a size below 1. For a size
  \<open>sz\<close> of at least 1 it returns an open semaphore with an empty buffer of capacity
  \<open>sz\<close>, on which \<open>sz\<close> calls of \<^verbatim>\<open>Acquire\<close> (by any goroutines \<open>gs\<close>) each return
  \<^verbatim>\<open>nil\<close> at once and leave nobody parked. The next \<^verbatim>\<open>Acquire\<close>, by \<open>g\<close>, does not
  return: \<open>g\<close> is parked, and stays parked with no further call ended however many more
  calls of \<^verbatim>\<open>Acquire\<close> follow. A \<^verbatim>\<open>Release\<close> by another goroutine \<open>h\<close> returns \<^verbatim>\<open>nil\<close>
  and ends the call of \<open>g\<close> with \<^verbatim>\<open>nil\<close>.
\<close>

theorem New_admits_size_Acquires:
  "(New sz = Inl ErrSize) = (sz < 1)
   \<and> (\<exists>s. New sz = Inr s) = (1 \<le> sz)
   \<and> (1 \<le> sz \<and> length gs = nat sz \<and> h \<noteq> g \<longrightarrow>
       (\<exists>s w1 w2 w3.
          New sz = Inr s \<and> \<not> closed (c s) \<and> qcount (c s) = 0 \<and> dataqsiz (c s) = nat sz
          \<and> run (start s) (map (\<lambda>a. (a, AcquireCall)) gs) = Some w1
          \<and> returned w1 = map (\<lambda>a. (a, AcquireCall, Normal None)) gs
          \<and> parked (sem w1) = {}
          \<and> step w1 (g, AcquireCall) = Some w2
          \<and> returned w2 = returned w1 \<and> parked (sem w2) = {g}
          \<and> (\<forall>hs w'. run w2 (map (\<lambda>a. (a, AcquireCall)) hs) = Some w'
                \<longrightarrow> returned w' = returned w2 \<and> g \<in> parked (sem w'))
          \<and> step w2 (h, ReleaseCall) = Some w3
          \<and> returned w3
              = returned w2 @ [(h, ReleaseCall, Normal None), (g, AcquireCall, Normal None)]
          \<and> parked (sem w3) = {}))"
proof (intro conjI impI)
  show "(New sz = Inl ErrSize) = (sz < 1)" by (simp add: New_def)
  show "(\<exists>s. New sz = Inr s) = (1 \<le> sz)" by (auto simp: New_def)
next
  assume a: "1 \<le> sz \<and> length gs = nat sz \<and> h \<noteq> g"
  let ?s = "\<lparr>c = make_chan (nat sz)\<rparr>"
  from a have n: "New sz = Inr ?s" by (simp add: New_def)
  have "\<exists>w'. run (start ?s) (map (\<lambda>g. (g, AcquireCall)) gs) = Some w'
           \<and> returned w' = returned (start ?s) @ map (\<lambda>g. (g, AcquireCall, Normal None)) gs
           \<and> \<not> closed (c (sem w')) \<and> recvq (c (sem w')) = [] \<and> sendq (c (sem w')) = []
           \<and> qcount (c (sem w')) = qcount (c (sem (start ?s))) + length gs
           \<and> dataqsiz (c (sem w')) = dataqsiz (c (sem (start ?s)))"
    using a by (intro run_Acquires) (simp_all add: start_def make_chan_def)
  then obtain w1 where w1: "run (start ?s) (map (\<lambda>g. (g, AcquireCall)) gs) = Some w1"
    "returned w1 = map (\<lambda>g. (g, AcquireCall, Normal None)) gs"
    "\<not> closed (c (sem w1))" "recvq (c (sem w1)) = []" "sendq (c (sem w1)) = []"
    "qcount (c (sem w1)) = dataqsiz (c (sem w1))"
    using a by (auto simp: start_def make_chan_def)
  let ?w2 = "\<lparr>sem = (sem w1)\<lparr>c := (c (sem w1))\<lparr>sendq := [g]\<rparr>\<rparr>, returned = returned w1\<rparr>"
  from w1 have s2: "step w1 (g, AcquireCall) = Some ?w2"
    by (simp add: step_def Acquire_def chansend_def parked_def)
  have stay: "returned w' = returned ?w2 \<and> g \<in> parked (sem w')"
    if "run ?w2 (map (\<lambda>a. (a, AcquireCall)) hs) = Some w'" for hs w'
    using run_Acquires_full [of ?w2 hs w'] that w1 by (simp add: parked_def)
  let ?w3 = "\<lparr>sem = (sem w1)\<lparr>c := (c (sem w1))\<lparr>sendq := []\<rparr>\<rparr>,
               returned = returned w1
                 @ [(h, ReleaseCall, Normal None), (g, AcquireCall, Normal None)]\<rparr>"
  from w1 a have s3: "step ?w2 (h, ReleaseCall) = Some ?w3"
    by (simp add: step_def Release_def chanrecv_def parked_def)
  from n w1 s2 stay s3 show "\<exists>s w1 w2 w3.
          New sz = Inr s \<and> \<not> closed (c s) \<and> qcount (c s) = 0 \<and> dataqsiz (c s) = nat sz
          \<and> run (start s) (map (\<lambda>a. (a, AcquireCall)) gs) = Some w1
          \<and> returned w1 = map (\<lambda>a. (a, AcquireCall, Normal None)) gs
          \<and> parked (sem w1) = {}
          \<and> step w1 (g, AcquireCall) = Some w2
          \<and> returned w2 = returned w1 \<and> parked (sem w2) = {g}
          \<and> (\<forall>hs w'. run w2 (map (\<lambda>a. (a, AcquireCall)) hs) = Some w'
                \<longrightarrow> returned w' = returned w2 \<and> g \<in> parked (sem w'))
          \<and> step w2 (h, ReleaseCall) = Some w3
          \<and> returned w3
              = returned w2 @ [(h, ReleaseCall, Normal None), (g, AcquireCall, Normal None)]
          \<and> parked (sem w3) = {}"
    apply -
    apply (rule exI [of _ ?s])
    apply (rule exI [of _ w1])
    apply (rule exI [of _ ?w2])
    apply (rule exI [of _ ?w3])
    apply (simp add: parked_def make_chan_def)
    done
qed

text \<open>Size 2: goroutines 0 and 1 acquire, goroutine 2 blocks until goroutine 0 releases.\<close>

theorem New_admits_size_Acquires_witness:
  "(1::int) \<le> 2 \<and> length [0, 1 :: gid] = nat 2 \<and> (0::gid) \<noteq> 2
   \<and> (\<exists>s w1 w2 w3.
          New 2 = Inr s \<and> \<not> closed (c s) \<and> qcount (c s) = 0 \<and> dataqsiz (c s) = nat 2
          \<and> run (start s) (map (\<lambda>a. (a, AcquireCall)) [0, 1]) = Some w1
          \<and> returned w1 = map (\<lambda>a. (a, AcquireCall, Normal None)) [0, 1]
          \<and> parked (sem w1) = {}
          \<and> step w1 (2, AcquireCall) = Some w2
          \<and> returned w2 = returned w1 \<and> parked (sem w2) = {2}
          \<and> (\<forall>hs w'. run w2 (map (\<lambda>a. (a, AcquireCall)) hs) = Some w'
                \<longrightarrow> returned w' = returned w2 \<and> 2 \<in> parked (sem w'))
          \<and> step w2 (0, ReleaseCall) = Some w3
          \<and> returned w3
              = returned w2 @ [(0, ReleaseCall, Normal None), (2, AcquireCall, Normal None)]
          \<and> parked (sem w3) = {})"
proof -
  have h: "(1::int) \<le> 2 \<and> length [0, 1 :: gid] = nat 2 \<and> (0::gid) \<noteq> 2" by simp
  from New_admits_size_Acquires [of 2 "[0, 1]" 0 2] h show ?thesis by blast
qed

section \<open>No call panics\<close>

lemma invoke_not_Panic: "fst (invoke k g s) \<noteq> Panic"
  by (cases k)
     (auto simp: Acquire_def Release_def Close_def chansend_def chanrecv_def closechan_def
        split: list.splits)

lemma invoke_wakes_Normal:
  "x \<in> set (fst (snd (invoke k g s))) \<Longrightarrow> \<exists>e. snd (snd (resume x)) = Normal e"
  by (cases k)
     (auto simp: Acquire_def Release_def Close_def chansend_def chanrecv_def closechan_def
        split: list.splits if_splits)

lemma ended_Normal: "r \<noteq> Panic \<Longrightarrow> e \<in> set (ended g k r) \<Longrightarrow> \<exists>v. snd (snd e) = Normal v"
  by (cases r) auto

lemma step_returned_Normal:
  assumes "\<forall>e\<in>set (returned w). \<exists>v. snd (snd e) = Normal v" "step w ev = Some w'"
  shows "\<forall>e\<in>set (returned w'). \<exists>v. snd (snd e) = Normal v"
proof -
  obtain g k where ev: "ev = (g, k)" by (cases ev)
  obtain r ws s where inv: "invoke k g (sem w) = (r, ws, s)" by (cases "invoke k g (sem w)")
  from assms(2) ev inv have w': "returned w' = returned w @ ended g k r @ map resume ws"
    by (auto simp: step_def split: if_splits)
  from invoke_not_Panic [of k g "sem w"] inv have "r \<noteq> Panic" by simp
  then have a: "\<forall>e\<in>set (ended g k r). \<exists>v. snd (snd e) = Normal v"
    using ended_Normal by blast
  from invoke_wakes_Normal [of _ k g "sem w"] inv
  have b: "\<forall>e\<in>set (map resume ws). \<exists>v. snd (snd e) = Normal v" by auto
  from assms(1) a b show ?thesis unfolding w' by auto
qed

lemma run_returned_Normal:
  "\<forall>e\<in>set (returned w). \<exists>v. snd (snd e) = Normal v \<Longrightarrow> run w evs = Some w' \<Longrightarrow>
     \<forall>e\<in>set (returned w'). \<exists>v. snd (snd e) = Normal v"
proof (induction evs arbitrary: w)
  case Nil
  then show ?case by simp
next
  case (Cons ev evs)
  from Cons.prems(2) obtain w1 where s: "step w ev = Some w1" and r: "run w1 evs = Some w'"
    by (auto split: option.splits)
  from Cons.IH [OF step_returned_Normal [OF Cons.prems(1) s] r] show ?case .
qed

text \<open>
  C9. In every state of the semaphore, no call of \<^verbatim>\<open>Acquire\<close>, \<^verbatim>\<open>Release\<close> or
  \<^verbatim>\<open>Close\<close> ends in a panic, and no blocked call that it wakes does. On a closed
  semaphore, \<^verbatim>\<open>Close\<close> returns \<^verbatim>\<open>ErrAlreadyClosed\<close>, \<^verbatim>\<open>Release\<close> returns \<^verbatim>\<open>nil\<close> or
  \<^verbatim>\<open>ErrUnusable\<close> and \<^verbatim>\<open>Acquire\<close> returns \<^verbatim>\<open>ErrUnusable\<close>. In every execution, every
  call that has ended has returned an \<^verbatim>\<open>error\<close> or \<^verbatim>\<open>nil\<close>.
\<close>

theorem methods_never_panic:
  "fst (invoke k g s) \<noteq> Panic
   \<and> (\<forall>x\<in>set (fst (snd (invoke k g s))). snd (snd (resume x)) \<noteq> Panic)
   \<and> (closed (c s) \<longrightarrow>
        fst (Close g s) = Normal (Some ErrAlreadyClosed)
        \<and> fst (Release g s) = Normal (if qcount (c s) = 0 then Some ErrUnusable else None)
        \<and> fst (Acquire g s) = Normal (Some ErrUnusable))
   \<and> (\<forall>w. run (start s) evs = Some w
        \<longrightarrow> (\<forall>e\<in>set (returned w). \<exists>v. snd (snd e) = Normal v))"
proof (intro conjI impI allI)
  show "fst (invoke k g s) \<noteq> Panic" by (rule invoke_not_Panic)
  show "\<forall>x\<in>set (fst (snd (invoke k g s))). snd (snd (resume x)) \<noteq> Panic"
    using invoke_wakes_Normal [of _ k g s] by fastforce
next
  assume "closed (c s)"
  then show "fst (Close g s) = Normal (Some ErrAlreadyClosed)"
    and "fst (Release g s) = Normal (if qcount (c s) = 0 then Some ErrUnusable else None)"
    and "fst (Acquire g s) = Normal (Some ErrUnusable)"
    by (simp_all add: Close_def closechan_def Release_def chanrecv_def Acquire_def chansend_def)
next
  fix w
  assume "run (start s) evs = Some w"
  then show "\<forall>e\<in>set (returned w). \<exists>v. snd (snd e) = Normal v"
    using run_returned_Normal [of "start s" evs w] by (simp add: start_def)
qed

text \<open>
  Capacity 1: an acquire, a blocked acquire, two closes, two releases and an acquire after
  the close.
\<close>

theorem methods_never_panic_witness:
  "let s = \<lparr>c = make_chan 1\<rparr>;
       evs = [(0, AcquireCall), (1, AcquireCall), (2, CloseCall), (2, CloseCall),
              (0, ReleaseCall), (0, ReleaseCall), (1, AcquireCall)];
       w = the (run (start s) evs);
       s' = sem w in
     run (start s) evs = Some w
     \<and> (\<forall>e\<in>set (returned w). \<exists>v. snd (snd e) = Normal v)
     \<and> closed (c s')
     \<and> fst (invoke CloseCall 0 s') \<noteq> Panic
     \<and> fst (Close 0 s') = Normal (Some ErrAlreadyClosed)
     \<and> fst (Release 0 s') = Normal (Some ErrUnusable)
     \<and> fst (Acquire 0 s') = Normal (Some ErrUnusable)"
  using methods_never_panic [of CloseCall 0
      "sem (the (run (start \<lparr>c = make_chan 1\<rparr>)
         [(0, AcquireCall), (1, AcquireCall), (2, CloseCall), (2, CloseCall),
          (0, ReleaseCall), (0, ReleaseCall), (1, AcquireCall)]))"
      "[]"]
    methods_never_panic [of CloseCall 0 "\<lparr>c = make_chan 1\<rparr>"
      "[(0, AcquireCall), (1, AcquireCall), (2, CloseCall), (2, CloseCall),
        (0, ReleaseCall), (0, ReleaseCall), (1, AcquireCall)]"]
  by (simp add: start_def make_chan_def step_def Acquire_def Release_def Close_def chansend_def
      chanrecv_def closechan_def parked_def Let_def)

section \<open>The states in which Release returns ErrUnusable\<close>

text \<open>
  C10. A call of \<^verbatim>\<open>Release\<close> returns \<^verbatim>\<open>ErrUnusable\<close> exactly on a semaphore that is
  closed and whose buffer is empty; the call then returns at once, wakes nobody and leaves
  the semaphore as it was. In every other state it returns \<^verbatim>\<open>nil\<close> or parks. A parked
  call of \<^verbatim>\<open>Release\<close> that another call wakes returns \<^verbatim>\<open>ErrUnusable\<close> exactly when the
  semaphore is closed with an empty buffer after that call, and \<^verbatim>\<open>nil\<close> otherwise.
\<close>

theorem Release_Unusable_iff:
  "(fst (Release g s) = Normal (Some ErrUnusable)) = (closed (c s) \<and> qcount (c s) = 0)
   \<and> (if closed (c s) \<and> qcount (c s) = 0
      then Release g s = (Normal (Some ErrUnusable), [], s)
      else fst (Release g s) = Normal None \<or> fst (Release g s) = Park)
   \<and> (chan_inv (c s) \<longrightarrow>
        (\<forall>r ok. Received r ok \<in> set (fst (snd (invoke k h s))) \<longrightarrow>
           (snd (snd (resume (Received r ok))) = Normal (Some ErrUnusable))
             = (closed (c (snd (snd (invoke k h s))))
                \<and> qcount (c (snd (snd (invoke k h s)))) = 0)
           \<and> (snd (snd (resume (Received r ok))) = Normal (Some ErrUnusable)
              \<or> snd (snd (resume (Received r ok))) = Normal None)))"
proof (intro conjI impI allI)
  show "(fst (Release g s) = Normal (Some ErrUnusable)) = (closed (c s) \<and> qcount (c s) = 0)"
    by (auto simp: Release_def chanrecv_def split: list.splits)
  show "if closed (c s) \<and> qcount (c s) = 0
      then Release g s = (Normal (Some ErrUnusable), [], s)
      else fst (Release g s) = Normal None \<or> fst (Release g s) = Park"
    by (auto simp: Release_def chanrecv_def split: list.splits)
next
  fix r ok
  assume "chan_inv (c s)" "Received r ok \<in> set (fst (snd (invoke k h s)))"
  then show "(snd (snd (resume (Received r ok))) = Normal (Some ErrUnusable))
             = (closed (c (snd (snd (invoke k h s))))
                \<and> qcount (c (snd (snd (invoke k h s)))) = 0)"
    by (cases k)
       (auto simp: Acquire_def Release_def Close_def chansend_def chanrecv_def closechan_def
          chan_inv_def split: list.splits if_splits)
  show "snd (snd (resume (Received r ok))) = Normal (Some ErrUnusable)
        \<or> snd (snd (resume (Received r ok))) = Normal None"
    by simp
qed

text \<open>
  Goroutine 0 is parked in \<^verbatim>\<open>Release\<close> on a fresh semaphore of capacity 1 and goroutine 1
  closes; goroutine 2 then calls \<^verbatim>\<open>Release\<close> on the closed, empty semaphore.
\<close>

theorem Release_Unusable_iff_witness:
  "let s = snd (snd (Release 0 \<lparr>c = make_chan 1\<rparr>)); s' = snd (snd (invoke CloseCall 1 s)) in
     chan_inv (c s) \<and> Received 0 False \<in> set (fst (snd (invoke CloseCall 1 s)))
     \<and> snd (snd (resume (Received 0 False))) = Normal (Some ErrUnusable)
     \<and> closed (c s') \<and> qcount (c s') = 0
     \<and> Release 2 s' = (Normal (Some ErrUnusable), [], s')"
  using Release_Unusable_iff
      [of 2 "snd (snd (invoke CloseCall 1 (snd (snd (Release 0 \<lparr>c = make_chan 1\<rparr>)))))"
        CloseCall 1]
    Release_Unusable_iff [of 2 "snd (snd (Release 0 \<lparr>c = make_chan 1\<rparr>))" CloseCall 1]
  by (simp add: make_chan_def Release_def Close_def chanrecv_def closechan_def chan_inv_def
      Let_def)

end
